theory Spec2Isabelle
  imports Complex_Main
begin

section \<open>The resilient scraper of \<^verbatim>\<open>exo6.py\<close>\<close>

text \<open>
  The class \<^verbatim>\<open>ResilientScraper\<close> is embedded method by method. The object's fields are
  a record that every method takes and returns; what the methods do to the outside
  (sleeping, sending a request, writing the checkpoint file) is appended to a trace kept
  in a second record, the world. What the outside answers (the outcome of each
  \<^verbatim>\<open>session.get\<close>, of each parse, of each file write) is a parameter, the environment,
  and every theorem holds for all environments.

  Python floats are read as real numbers and Python integers as \<open>int\<close>.
\<close>

subsection \<open>Exceptions\<close>

text \<open>
  The exceptions that the handlers of the class tell apart. \<open>Timeout\<close>, \<open>HTTPError\<close> and
  \<open>ConnectionError\<close> are the \<^verbatim>\<open>requests.exceptions\<close> classes (\<open>ConnectionError\<close> stands for
  every \<^verbatim>\<open>RequestException\<close> that is neither of the other two); \<open>ValueError\<close>, \<open>OSError\<close> and
  \<open>OtherException\<close> are subclasses of \<^verbatim>\<open>Exception\<close> outside \<^verbatim>\<open>requests\<close>;
  \<open>KeyboardInterrupt\<close> and \<open>SystemExit\<close> derive from \<^verbatim>\<open>BaseException\<close> only.
\<close>

datatype exn =
    Timeout
  | HTTPError
  | ConnectionError
  | ValueError
  | OSError
  | OtherException
  | KeyboardInterrupt
  | SystemExit

fun is_Timeout :: "exn \<Rightarrow> bool" where
  "is_Timeout Timeout = True"
| "is_Timeout _ = False"

fun is_RequestException :: "exn \<Rightarrow> bool" where
  "is_RequestException Timeout = True"
| "is_RequestException HTTPError = True"
| "is_RequestException ConnectionError = True"
| "is_RequestException _ = False"

fun is_Exception :: "exn \<Rightarrow> bool" where
  "is_Exception KeyboardInterrupt = False"
| "is_Exception SystemExit = False"
| "is_Exception _ = True"

subsection \<open>The object and the world\<close>

record stats =
  total_requests :: int
  successful_requests :: int
  failed_requests :: int
  retries :: int
  blocked_detections :: int
  books_scraped :: int

record book =
  url :: string
  title :: string
  price :: string
  availability :: string
  rating :: string

record scraper =
  base_url :: string
  stats :: stats
  delay :: real
  min_delay :: real
  max_delay :: real
  timeout :: real
  max_retries :: int
  scraped_books :: "book list"

record response =
  status_code :: int
  response_text :: string
  content :: string

text \<open>
  The trace of effects: \<open>Slept t\<close> is a completed \<^verbatim>\<open>time.sleep(t)\<close>, \<open>Requested u t\<close> a call
  \<^verbatim>\<open>session.get(u, timeout=t)\<close>, \<open>Scraped u\<close> the appending of the book of URL \<open>u\<close> to
  \<^verbatim>\<open>scraped_books\<close>, and \<open>Saved ok\<close> a call of \<^verbatim>\<open>save_checkpoint\<close>, with \<open>ok\<close> telling
  whether the file was written. The world also counts the calls of \<^verbatim>\<open>session.get\<close> and
  the writes of the checkpoint file, and keeps the last checkpoint written in full.
\<close>

datatype event =
    Slept real
  | Requested string real
  | Scraped string
  | Saved bool

record world =
  trace :: "event list"
  gets :: nat
  writes :: nat
  checkpoint :: "(book list \<times> stats) option"

datatype get_result = Returns response | Raises exn

text \<open>
  The environment: \<open>session_get i\<close> is the outcome of the \<open>i\<close>-th \<^verbatim>\<open>session.get\<close> of the
  run, \<open>file_write i\<close> the exception raised by the \<open>i\<close>-th write of the checkpoint file
  (\<open>None\<close> when it succeeds), \<open>results_write\<close> the same for the results file,
  \<open>soup_book\<close> what BeautifulSoup extracts from the content of a book page (the fields
  of the book, or the exception raised on the way), \<open>soup_catalogue\<close> what it extracts
  from a catalogue page: the \<^verbatim>\<open>product_pod\<close> articles, each one as the \<^verbatim>\<open>href\<close> of its
  link or as the exception that reading it raises.
\<close>

record env =
  session_get :: "nat \<Rightarrow> get_result"
  file_write :: "nat \<Rightarrow> exn option"
  results_write :: "exn option"
  soup_book :: "string \<Rightarrow> exn + book"
  soup_catalogue :: "string \<Rightarrow> exn + (exn + string) list"

text \<open>The fields as \<^verbatim>\<open>__init__\<close> sets them, before \<^verbatim>\<open>load_checkpoint\<close>.\<close>

definition init_stats :: stats where
  "init_stats = \<lparr>total_requests = 0, successful_requests = 0, failed_requests = 0,
     retries = 0, blocked_detections = 0, books_scraped = 0\<rparr>"

definition init :: "string \<Rightarrow> scraper" where
  "init b = \<lparr>base_url = b, stats = init_stats, delay = 1, min_delay = 1 / 2,
     max_delay = 10, timeout = 10, max_retries = 5, scraped_books = []\<rparr>"

definition world0 :: world where
  "world0 = \<lparr>trace = [], gets = 0, writes = 0, checkpoint = None\<rparr>"

subsection \<open>\<^verbatim>\<open>adaptive_delay\<close>\<close>

definition adaptive_delay :: "bool \<Rightarrow> scraper \<Rightarrow> scraper" where
  "adaptive_delay success s =
     (if success then s\<lparr>delay := max (min_delay s) (delay s * (9 / 10))\<rparr>
      else s\<lparr>delay := min (max_delay s) (delay s * (3 / 2))\<rparr>)"

subsection \<open>\<^verbatim>\<open>detect_blocking\<close>\<close>

text \<open>
  \<^verbatim>\<open>str.lower\<close> on the ASCII letters: an upper-case letter has its bit 5 set (its code
  plus 32), every other character is kept. The characters outside ASCII that
  \<^verbatim>\<open>str.lower\<close> changes never become one of the letters of \<^verbatim>\<open>captcha\<close>, so they do not
  matter to the test below.
\<close>

definition lower_char :: "char \<Rightarrow> char" where
  "lower_char c =
     (if 65 \<le> (of_char c :: nat) \<and> (of_char c :: nat) \<le> 90
      then Char (digit0 c) (digit1 c) (digit2 c) (digit3 c) (digit4 c) True (digit6 c) (digit7 c)
      else c)"

definition lower :: "string \<Rightarrow> string" where
  "lower t = map lower_char t"

text \<open>Python's \<^verbatim>\<open>p in t\<close> on strings: \<open>p\<close> occurs in \<open>t\<close> as a contiguous substring.\<close>

fun str_in :: "string \<Rightarrow> string \<Rightarrow> bool" where
  "str_in p [] = (p = [])"
| "str_in p (c # cs) = (take (length p) (c # cs) = p \<or> str_in p cs)"

definition detect_blocking :: "response \<Rightarrow> scraper \<Rightarrow> bool \<times> scraper" where
  "detect_blocking r s =
     (if status_code r = 403 \<or> status_code r = 429
      then (True, stats_update (blocked_detections_update (\<lambda>n. n + 1)) s)
      else if str_in ''captcha'' (lower (response_text r))
      then (True, stats_update (blocked_detections_update (\<lambda>n. n + 1)) s)
      else (False, s))"

text \<open>
  The rule of the specification, in its own words: the status is one of 403 and 429, or
  the body contains, whatever the case of its letters, the word \<^verbatim>\<open>captcha\<close>.
\<close>

definition contains_ignoring_case :: "string \<Rightarrow> string \<Rightarrow> bool" where
  "contains_ignoring_case body word =
     (\<exists>before occurrence after. body = before @ occurrence @ after
        \<and> lower occurrence = lower word)"

definition spec_classify :: "int \<Rightarrow> string \<Rightarrow> bool" where
  "spec_classify status body =
     (status \<in> {403, 429} \<or> contains_ignoring_case body ''captcha'')"

subsection \<open>\<^verbatim>\<open>make_request\<close>\<close>

text \<open>
  \<^verbatim>\<open>time.sleep\<close> raises \<^verbatim>\<open>ValueError\<close> on a negative length. \<^verbatim>\<open>session.get\<close> takes its
  outcome from the environment. \<^verbatim>\<open>raise_for_status\<close> raises \<^verbatim>\<open>HTTPError\<close> on the statuses
  from 400 to 599.
\<close>

definition sleep :: "real \<Rightarrow> world \<Rightarrow> exn + world" where
  "sleep t w = (if t < 0 then Inl ValueError else Inr (w\<lparr>trace := trace w @ [Slept t]\<rparr>))"

definition get :: "env \<Rightarrow> string \<Rightarrow> real \<Rightarrow> world \<Rightarrow> get_result \<times> world" where
  "get e u t w =
     (session_get e (gets w), w\<lparr>trace := trace w @ [Requested u t], gets := Suc (gets w)\<rparr>)"

definition raise_for_status :: "response \<Rightarrow> exn option" where
  "raise_for_status r =
     (if 400 \<le> status_code r \<and> status_code r < 600 then Some HTTPError else None)"

text \<open>
  One call of \<^verbatim>\<open>make_request\<close> either returns a value, or raises, or ends in
  \<^verbatim>\<open>return self.make_request(url, retries + 1)\<close>.
\<close>

datatype control = Return "response option" | Recurse | Raise exn

text \<open>The body of the \<^verbatim>\<open>try\<close> block, up to the recursive call.\<close>

definition try_block ::
  "env \<Rightarrow> string \<Rightarrow> int \<Rightarrow> scraper \<times> world \<Rightarrow> control \<times> scraper \<times> world" where
  "try_block e u attempt sw =
     (case sw of (s, w) \<Rightarrow>
      (case sleep (delay s) w of
         Inl x \<Rightarrow> (Raise x, s, w)
       | Inr w1 \<Rightarrow>
          (case get e u (timeout s * (1 + of_int attempt * (1 / 2))) w1 of
             (Raises x, w2) \<Rightarrow> (Raise x, s, w2)
           | (Returns r, w2) \<Rightarrow>
              (let (blocked, s1) = detect_blocking r s in
               if blocked then
                 (if attempt < max_retries s1 then
                    (case sleep (delay s1 * 2 powi attempt) w2 of
                       Inl x \<Rightarrow> (Raise x, s1, w2)
                     | Inr w3 \<Rightarrow>
                        (Recurse, stats_update (retries_update (\<lambda>n. n + 1)) s1, w3))
                  else (Return None,
                        stats_update (failed_requests_update (\<lambda>n. n + 1)) s1, w2))
               else
                 (case raise_for_status r of
                    Some x \<Rightarrow> (Raise x, s1, w2)
                  | None \<Rightarrow>
                     (Return (Some r),
                      adaptive_delay True
                        (stats_update (successful_requests_update (\<lambda>n. n + 1)) s1),
                      w2))))))"

text \<open>The two handlers, \<^verbatim>\<open>except Timeout\<close> and \<^verbatim>\<open>except RequestException\<close>.\<close>

definition except_Timeout :: "int \<Rightarrow> scraper \<times> world \<Rightarrow> control \<times> scraper \<times> world" where
  "except_Timeout attempt sw =
     (case sw of (s, w) \<Rightarrow>
      if attempt < max_retries s
      then (Recurse, stats_update (retries_update (\<lambda>n. n + 1)) s, w)
      else (Return None,
            adaptive_delay False (stats_update (failed_requests_update (\<lambda>n. n + 1)) s), w))"

definition except_RequestException ::
  "int \<Rightarrow> scraper \<times> world \<Rightarrow> control \<times> scraper \<times> world" where
  "except_RequestException attempt sw =
     (case sw of (s, w) \<Rightarrow>
      if attempt < max_retries s
      then (let s1 = stats_update (retries_update (\<lambda>n. n + 1)) s in
            case sleep (delay s1 * (of_int attempt + 1)) w of
              Inl x \<Rightarrow> (Raise x, s1, w)
            | Inr w1 \<Rightarrow> (Recurse, s1, w1))
      else (Return None,
            adaptive_delay False (stats_update (failed_requests_update (\<lambda>n. n + 1)) s), w))"

text \<open>
  One attempt: the counter of requests, the \<^verbatim>\<open>try\<close> block, and the handler that matches
  what the block raised, \<^verbatim>\<open>Timeout\<close> being tried first. An exception that is no
  \<^verbatim>\<open>RequestException\<close> leaves the method.
\<close>

definition attempt_once ::
  "env \<Rightarrow> string \<Rightarrow> int \<Rightarrow> scraper \<times> world \<Rightarrow> control \<times> scraper \<times> world" where
  "attempt_once e u attempt sw =
     (case sw of (s, w) \<Rightarrow>
      (case try_block e u attempt (stats_update (total_requests_update (\<lambda>n. n + 1)) s, w) of
         (Raise x, sw1) \<Rightarrow>
           if is_Timeout x then except_Timeout attempt sw1
           else if is_RequestException x then except_RequestException attempt sw1
           else (Raise x, sw1)
       | (Return r, sw1) \<Rightarrow> (Return r, sw1)
       | (Recurse, sw1) \<Rightarrow> (Recurse, sw1)))"

text \<open>
  \<^verbatim>\<open>make_request(url, retries)\<close>; the parameter \<^verbatim>\<open>retries\<close> is \<open>attempt\<close> here, the name
  \<open>retries\<close> being the counter of the statistics. The result is \<open>Inl x\<close> when the call
  raises \<open>x\<close>, \<open>Inr None\<close> when it returns \<^verbatim>\<open>None\<close>, \<open>Inr (Some r)\<close> when it returns the
  response \<open>r\<close>. The recursive call made in the \<^verbatim>\<open>try\<close> block stands inside the handlers
  of its caller, but it never raises a \<^verbatim>\<open>RequestException\<close> (lemma
  \<open>make_request_no_RequestException\<close>), so what it raises leaves the caller as well.
\<close>

function make_request ::
  "env \<Rightarrow> string \<Rightarrow> int \<Rightarrow> scraper \<times> world \<Rightarrow> (exn + response option) \<times> scraper \<times> world" where
  "make_request e u attempt sw =
     (case attempt_once e u attempt sw of
        (Recurse, sw1) \<Rightarrow> make_request e u (attempt + 1) sw1
      | (Return r, sw1) \<Rightarrow> (Inr r, sw1)
      | (Raise x, sw1) \<Rightarrow> (Inl x, sw1))"
  by pat_completeness auto
termination
proof (relation "measure (\<lambda>(e, u, attempt, s, w). nat (max_retries s - attempt))")
  show "wf (measure (\<lambda>(e, u, attempt, s, w). nat (max_retries (s::scraper) - attempt)))"
    by simp
next
  fix e :: env and u :: string and attempt :: int and sw sw1 :: "scraper \<times> world"
    and c :: control
  assume a: "(c, sw1) = attempt_once e u attempt sw" "c = Recurse"
  obtain s w where sw: "sw = (s, w)" by (cases sw)
  obtain s1 w1 where sw1: "sw1 = (s1, w1)" by (cases sw1)
  from a have "attempt_once e u attempt (s, w) = (Recurse, s1, w1)"
    by (simp add: sw sw1)
  then have "attempt < max_retries s \<and> max_retries s1 = max_retries s"
    by (auto simp: attempt_once_def try_block_def except_Timeout_def
        except_RequestException_def detect_blocking_def adaptive_delay_def Let_def
        split: sum.splits prod.splits get_result.splits control.splits if_splits
          option.splits)
  then show "((e, u, attempt + 1, sw1), e, u, attempt, sw)
      \<in> measure (\<lambda>(e, u, attempt, s, w). nat (max_retries s - attempt))"
    by (simp add: sw sw1)
qed

declare make_request.simps [simp del]

subsection \<open>\<^verbatim>\<open>scrape_book\<close>\<close>

text \<open>
  A response is true in a condition when its status is not one that \<^verbatim>\<open>raise_for_status\<close>
  rejects. The parsing stands in a \<^verbatim>\<open>try\<close> block whose handler catches every
  \<^verbatim>\<open>Exception\<close> and returns \<^verbatim>\<open>None\<close>; the \<^verbatim>\<open>url\<close> field of the new book is the URL asked for.
\<close>

definition ok :: "response \<Rightarrow> bool" where
  "ok r = (raise_for_status r = None)"

definition scrape_book ::
  "env \<Rightarrow> string \<Rightarrow> scraper \<times> world \<Rightarrow> (exn + book option) \<times> scraper \<times> world" where
  "scrape_book e book_url sw =
     (case sw of (s, w) \<Rightarrow>
      if list_ex (\<lambda>b. url b = book_url) (scraped_books s) then (Inr None, s, w)
      else
        (case make_request e book_url 0 (s, w) of
           (Inl x, s1, w1) \<Rightarrow> (Inl x, s1, w1)
         | (Inr None, s1, w1) \<Rightarrow> (Inr None, s1, w1)
         | (Inr (Some r), s1, w1) \<Rightarrow>
            if \<not> ok r then (Inr None, s1, w1)
            else
              (case soup_book e (content r) of
                 Inl x \<Rightarrow> if is_Exception x then (Inr None, s1, w1) else (Inl x, s1, w1)
               | Inr parsed \<Rightarrow>
                  (let book_data = parsed\<lparr>url := book_url\<rparr> in
                   (Inr (Some book_data),
                    stats_update (books_scraped_update (\<lambda>n. n + 1))
                      (s1\<lparr>scraped_books := scraped_books s1 @ [book_data]\<rparr>),
                    w1\<lparr>trace := trace w1 @ [Scraped book_url]\<rparr>)))))"

subsection \<open>\<^verbatim>\<open>save_checkpoint\<close> and \<^verbatim>\<open>save_results\<close>\<close>

text \<open>
  The write stands in a \<^verbatim>\<open>try\<close> block whose handler catches every \<^verbatim>\<open>Exception\<close> and
  logs it; an exception that is no \<^verbatim>\<open>Exception\<close> leaves the method.
\<close>

definition save_checkpoint ::
  "env \<Rightarrow> scraper \<times> world \<Rightarrow> (exn + unit) \<times> scraper \<times> world" where
  "save_checkpoint e sw =
     (case sw of (s, w) \<Rightarrow>
      (case file_write e (writes w) of
         None \<Rightarrow>
           (Inr (), s, w\<lparr>trace := trace w @ [Saved True], writes := Suc (writes w),
                          checkpoint := Some (scraped_books s, stats s)\<rparr>)
       | Some x \<Rightarrow>
           (if is_Exception x then Inr () else Inl x, s,
            w\<lparr>trace := trace w @ [Saved False], writes := Suc (writes w)\<rparr>)))"

definition save_results :: "env \<Rightarrow> exn option" where
  "save_results e =
     (case results_write e of
        None \<Rightarrow> None
      | Some x \<Rightarrow> if is_Exception x then None else Some x)"

subsection \<open>\<^verbatim>\<open>scrape_catalogue\<close>\<close>

text \<open>Python's \<^verbatim>\<open>str\<close> of a page number, and \<^verbatim>\<open>str.replace\<close> for a pattern that is not empty.\<close>

function str_nat :: "nat \<Rightarrow> string" where
  "str_nat n =
     (if n < 10 then [''0123456789'' ! n]
      else str_nat (n div 10) @ [''0123456789'' ! (n mod 10)])"
  by pat_completeness auto
termination
  by (relation "measure id") auto

declare str_nat.simps [simp del]

function replace :: "string \<Rightarrow> string \<Rightarrow> string \<Rightarrow> string" where
  "replace old new [] = []"
| "replace old new (c # cs) =
     (if old \<noteq> [] \<and> take (length old) (c # cs) = old
      then new @ replace old new (drop (length old) (c # cs))
      else c # replace old new cs)"
  by pat_completeness auto
termination
  by (relation "measure (\<lambda>(old, new, t). length t)") auto

definition page_url :: "scraper \<Rightarrow> nat \<Rightarrow> string" where
  "page_url s page = base_url s @ ''/catalogue/page-'' @ str_nat page @ ''.html''"

definition book_url_of :: "scraper \<Rightarrow> string \<Rightarrow> string" where
  "book_url_of s link = base_url s @ ''/catalogue/'' @ replace ''../../../'' [] link"

text \<open>
  The \<^verbatim>\<open>for\<close> loop over the articles of a page. Reading the link of an article may
  raise; \<^verbatim>\<open>scrape_book\<close> is called and its result dropped; then the checkpoint is saved
  when the counter of books is a multiple of 10. \<^verbatim>\<open>print_stats\<close> only logs. The result
  is the exception that left the loop, if any.
\<close>

fun for_books ::
  "env \<Rightarrow> (exn + string) list \<Rightarrow> scraper \<times> world \<Rightarrow> exn option \<times> scraper \<times> world" where
  "for_books e [] sw = (None, sw)"
| "for_books e (article # articles) sw =
     (case article of
        Inl x \<Rightarrow> (Some x, sw)
      | Inr link \<Rightarrow>
         (case scrape_book e (book_url_of (fst sw) link) sw of
            (Inl x, sw1) \<Rightarrow> (Some x, sw1)
          | (Inr b, sw1) \<Rightarrow>
             if books_scraped (stats (fst sw1)) mod 10 = 0 then
               (case save_checkpoint e sw1 of
                  (Inl x, sw2) \<Rightarrow> (Some x, sw2)
                | (Inr u, sw2) \<Rightarrow> for_books e articles sw2)
             else for_books e articles sw1))"

text \<open>
  The \<^verbatim>\<open>while True\<close> loop over the pages. It need not end, so it runs on fuel, one unit
  for each page: \<open>Running\<close> is the loop stopped from outside after that many pages, \<open>Break\<close>
  a \<^verbatim>\<open>break\<close>, \<open>Raised x\<close> the exception \<open>x\<close> leaving the loop.
\<close>

datatype loop_end = Running | Break | Raised exn

fun while_pages ::
  "nat \<Rightarrow> env \<Rightarrow> nat \<Rightarrow> scraper \<times> world \<Rightarrow> loop_end \<times> scraper \<times> world" where
  "while_pages 0 e page sw = (Running, sw)"
| "while_pages (Suc fuel) e page sw =
     (case make_request e (page_url (fst sw) page) 0 sw of
        (Inl x, sw1) \<Rightarrow> (Raised x, sw1)
      | (Inr None, sw1) \<Rightarrow> (Break, sw1)
      | (Inr (Some r), sw1) \<Rightarrow>
         if \<not> ok r then (Break, sw1)
         else
           (case soup_catalogue e (content r) of
              Inl x \<Rightarrow> (Raised x, sw1)
            | Inr books \<Rightarrow>
               if books = [] then (Break, sw1)
               else
                 (case for_books e books sw1 of
                    (Some x, sw2) \<Rightarrow> (Raised x, sw2)
                  | (None, sw2) \<Rightarrow> while_pages fuel e (page + 1) sw2)))"

text \<open>
  The \<^verbatim>\<open>finally\<close> clause: the checkpoint, then the results. An exception raised there
  replaces the one that was on its way, \<open>pending\<close>; otherwise that one goes on.
\<close>

definition finally_clause ::
  "env \<Rightarrow> exn option \<Rightarrow> scraper \<times> world \<Rightarrow> loop_end \<times> scraper \<times> world" where
  "finally_clause e pending sw =
     (case save_checkpoint e sw of
        (Inl x, sw1) \<Rightarrow> (Raised x, sw1)
      | (Inr u, sw1) \<Rightarrow>
         (case save_results e of
            Some x \<Rightarrow> (Raised x, sw1)
          | None \<Rightarrow> (case pending of None \<Rightarrow> (Break, sw1) | Some x \<Rightarrow> (Raised x, sw1))))"

text \<open>
  \<^verbatim>\<open>scrape_catalogue\<close>: the loop from page 1, the handler of \<^verbatim>\<open>KeyboardInterrupt\<close> and the
  one of \<^verbatim>\<open>Exception\<close> (both save the checkpoint and raise again), and the \<^verbatim>\<open>finally\<close>
  clause. The result is \<open>Break\<close> when the method returns, \<open>Raised x\<close> when it raises,
  \<open>Running\<close> when the loop was stopped from outside.
\<close>

definition scrape_catalogue ::
  "nat \<Rightarrow> env \<Rightarrow> scraper \<times> world \<Rightarrow> loop_end \<times> scraper \<times> world" where
  "scrape_catalogue fuel e sw =
     (case while_pages fuel e 1 sw of
        (Running, sw1) \<Rightarrow> (Running, sw1)
      | (Break, sw1) \<Rightarrow> finally_clause e None sw1
      | (Raised x, sw1) \<Rightarrow>
         if x = KeyboardInterrupt \<or> is_Exception x then
           (case save_checkpoint e sw1 of
              (Inl y, sw2) \<Rightarrow> finally_clause e (Some y) sw2
            | (Inr u, sw2) \<Rightarrow> finally_clause e (Some x) sw2)
         else finally_clause e (Some x) sw1)"

subsection \<open>The checkpoint policy as a monitor of the trace\<close>

text \<open>
  The policy of the specification, read off a trace. The monitor counts the books as
  the scraper does (\<open>counted\<close>), counts the books appended since the last call of
  \<^verbatim>\<open>save_checkpoint\<close> (\<open>unsaved\<close>) and remembers whether a save is owed (\<open>due\<close>): it is,
  from the appending that makes the counter a multiple of 10 until the next save. The
  monitor rejects a trace (\<open>None\<close>) when anything but a save follows such an appending,
  and when, no save being owed, more than 9 books wait for one.
\<close>

record monitor =
  counted :: int
  unsaved :: nat
  due :: bool

fun observe :: "event \<Rightarrow> monitor \<Rightarrow> monitor option" where
  "observe (Scraped u) m =
     (if due m then None
      else if (counted m + 1) mod 10 = 0
      then Some \<lparr>counted = counted m + 1, unsaved = Suc (unsaved m), due = True\<rparr>
      else if Suc (unsaved m) \<le> 9
      then Some \<lparr>counted = counted m + 1, unsaved = Suc (unsaved m), due = False\<rparr>
      else None)"
| "observe (Saved b) m = Some (m\<lparr>unsaved := 0, due := False\<rparr>)"
| "observe (Slept t) m = (if due m then None else Some m)"
| "observe (Requested u t) m = (if due m then None else Some m)"

fun observe_all :: "event list \<Rightarrow> monitor \<Rightarrow> monitor option" where
  "observe_all [] m = Some m"
| "observe_all (ev # evs) m =
     (case observe ev m of None \<Rightarrow> None | Some m1 \<Rightarrow> observe_all evs m1)"


fun is_Saved :: "event \<Rightarrow> bool" where
  "is_Saved (Saved b) = True"
| "is_Saved _ = False"



subsection \<open>Servers and pages for the examples\<close>

text \<open>
  A response of a given status whose body and content are the same string, an
  environment around a list of answers of the server, and a few servers.
\<close>

definition reply :: "int \<Rightarrow> string \<Rightarrow> response" where
  "reply status c = \<lparr>status_code = status, response_text = c, content = c\<rparr>"

definition env_of :: "(nat \<Rightarrow> get_result) \<Rightarrow> env" where
  "env_of answers =
     \<lparr>session_get = answers, file_write = (\<lambda>i. None), results_write = None,
      soup_book = (\<lambda>c. Inr \<lparr>url = [], title = c, price = [], availability = [], rating = []\<rparr>),
      soup_catalogue = (\<lambda>c. if c = ''one book'' then Inr [Inr ''../../../a.html''] else Inr [])\<rparr>"

definition always_blocked :: "nat \<Rightarrow> get_result" where
  "always_blocked i = Returns (reply 429 [])"

definition blocked_then_ok :: "nat \<Rightarrow> get_result" where
  "blocked_then_ok i = (if i = 0 then Returns (reply 429 []) else Returns (reply 200 []))"

definition always_500 :: "nat \<Rightarrow> get_result" where
  "always_500 i = Returns (reply 500 [])"

definition timeout_then_ok :: "nat \<Rightarrow> get_result" where
  "timeout_then_ok i = (if i = 0 then Raises Timeout else Returns (reply 200 []))"

definition refused_then_ok :: "nat \<Rightarrow> get_result" where
  "refused_then_ok i = (if i = 0 then Raises ConnectionError else Returns (reply 200 []))"

text \<open>
  A site of one catalogue page that lists one book, followed by an empty page, and the
  same site whose disk is full.
\<close>

definition small_site :: "nat \<Rightarrow> get_result" where
  "small_site i =
     (if i = 0 then Returns (reply 200 ''one book'')
      else if i = 1 then Returns (reply 200 ''A Light in the Attic'')
      else Returns (reply 200 []))"

definition disk_full :: env where
  "disk_full = (env_of small_site)\<lparr>file_write := (\<lambda>i. Some OSError)\<rparr>"

definition always_304 :: "nat \<Rightarrow> get_result" where
  "always_304 i = Returns (reply 304 [])"

text \<open>A server of book pages, the book it yields at the URL \<open>u\<close>, and a scraper that holds it.\<close>

definition book_server :: "nat \<Rightarrow> get_result" where
  "book_server i = Returns (reply 200 ''A Light in the Attic'')"

definition attic :: book where
  "attic = \<lparr>url = ''u'', title = ''A Light in the Attic'', price = [], availability = [],
     rating = []\<rparr>"

definition one_book :: scraper where
  "one_book = (init ''b'')\<lparr>scraped_books := [attic]\<rparr>"





section \<open>The rate controller\<close>

lemma delay_adaptive_delay_True:
  "delay (adaptive_delay True s) = max (min_delay s) (delay s * (9 / 10))"
  by (simp add: adaptive_delay_def)

lemma delay_adaptive_delay_False:
  "delay (adaptive_delay False s) = min (max_delay s) (delay s * (3 / 2))"
  by (simp add: adaptive_delay_def)

lemma bounds_adaptive_delay [simp]:
  "min_delay (adaptive_delay b s) = min_delay s"
  "max_delay (adaptive_delay b s) = max_delay s"
  by (simp_all add: adaptive_delay_def)

lemma bounds_funpow_adaptive_delay:
  "min_delay ((adaptive_delay b ^^ n) s) = min_delay s
   \<and> max_delay ((adaptive_delay b ^^ n) s) = max_delay s"
  by (induction n) simp_all

lemma init_successes_range:
  "1 / 2 \<le> delay ((adaptive_delay True ^^ n) (init b))
   \<and> delay ((adaptive_delay True ^^ n) (init b)) \<le> 1"
proof (induction n)
  case 0
  show ?case by (simp add: init_def)
next
  case (Suc n)
  have "min_delay ((adaptive_delay True ^^ n) (init b)) = 1 / 2"
    using bounds_funpow_adaptive_delay [where b = True and n = n and s = "init b"] by (simp add: init_def)
  with Suc show ?case
    by (simp add: delay_adaptive_delay_True)
qed

lemma init_failures_range:
  "1 \<le> delay ((adaptive_delay False ^^ n) (init b))
   \<and> delay ((adaptive_delay False ^^ n) (init b)) \<le> 10"
proof (induction n)
  case 0
  show ?case by (simp add: init_def)
next
  case (Suc n)
  have "max_delay ((adaptive_delay False ^^ n) (init b)) = 10"
    using bounds_funpow_adaptive_delay [where b = False and n = n and s = "init b"] by (simp add: init_def)
  with Suc show ?case
    by (simp add: delay_adaptive_delay_False)
qed

text \<open>
  Claim C3. A success sets the delay to \<open>max min_delay (delay * 0.9)\<close> and a failure to
  \<open>min max_delay (delay * 1.5)\<close>. From the initial delay 1.0 with the bounds 0.5 and 10,
  after any number \<open>n\<close> of successes one more success does not raise the delay, which
  stays at 0.5 or above; after any number \<open>n\<close> of failures one more failure does not
  lower the delay, which stays at 10 or below.
\<close>

theorem C3_adaptive_delay_monotone:
  "delay (adaptive_delay True s) = max (min_delay s) (delay s * (9 / 10))
   \<and> delay (adaptive_delay False s) = min (max_delay s) (delay s * (3 / 2))
   \<and> delay ((adaptive_delay True ^^ Suc n) (init b)) \<le> delay ((adaptive_delay True ^^ n) (init b))
   \<and> 1 / 2 \<le> delay ((adaptive_delay True ^^ n) (init b))
   \<and> delay ((adaptive_delay False ^^ n) (init b)) \<le> delay ((adaptive_delay False ^^ Suc n) (init b))
   \<and> delay ((adaptive_delay False ^^ n) (init b)) \<le> 10"
proof -
  have lo: "min_delay ((adaptive_delay True ^^ n) (init b)) = 1 / 2"
    using bounds_funpow_adaptive_delay [where b = True and n = n and s = "init b"] by (simp add: init_def)
  have hi: "max_delay ((adaptive_delay False ^^ n) (init b)) = 10"
    using bounds_funpow_adaptive_delay [where b = False and n = n and s = "init b"] by (simp add: init_def)
  have down: "delay ((adaptive_delay True ^^ Suc n) (init b))
      \<le> delay ((adaptive_delay True ^^ n) (init b))"
    using init_successes_range [of n b] lo by (simp add: delay_adaptive_delay_True)
  have up: "delay ((adaptive_delay False ^^ n) (init b))
      \<le> delay ((adaptive_delay False ^^ Suc n) (init b))"
    using init_failures_range [of n b] hi by (simp add: delay_adaptive_delay_False)
  show ?thesis
    using down up init_successes_range [of n b] init_failures_range [of n b]
    by (simp add: delay_adaptive_delay_True delay_adaptive_delay_False)
qed

section \<open>The block detector\<close>

lemma str_in_iff: "str_in p t \<longleftrightarrow> (\<exists>before after. t = before @ p @ after)"
proof (induction t)
  case Nil
  show ?case by auto
next
  case (Cons c cs)
  show ?case
  proof
    assume "str_in p (c # cs)"
    then consider "take (length p) (c # cs) = p" | "str_in p cs" by auto
    then show "\<exists>before after. c # cs = before @ p @ after"
    proof cases
      case 1
      then have "c # cs = [] @ p @ drop (length p) (c # cs)"
        by (metis append_Nil append_take_drop_id)
      then show ?thesis by blast
    next
      case 2
      with Cons obtain before after where "cs = before @ p @ after" by blast
      then have "c # cs = (c # before) @ p @ after" by simp
      then show ?thesis by blast
    qed
  next
    assume "\<exists>before after. c # cs = before @ p @ after"
    then obtain before after where e: "c # cs = before @ p @ after" by blast
    show "str_in p (c # cs)"
    proof (cases before)
      case Nil
      with e have "take (length p) (c # cs) = p" by simp
      then show ?thesis by simp
    next
      case (Cons b bs)
      with e have "cs = bs @ p @ after" by simp
      with Cons.IH show ?thesis by auto
    qed
  qed
qed

lemma map_eq_appendD:
  assumes "map f xs = ys @ zs"
  shows "\<exists>ys' zs'. xs = ys' @ zs' \<and> map f ys' = ys \<and> map f zs' = zs"
proof -
  have "xs = take (length ys) xs @ drop (length ys) xs" by simp
  moreover have "map f (take (length ys) xs) = ys"
    using assms by (metis append_eq_conv_conj take_map)
  moreover have "map f (drop (length ys) xs) = zs"
    using assms by (metis append_eq_conv_conj drop_map)
  ultimately show ?thesis by blast
qed

lemma str_in_lower_iff:
  "str_in (lower word) (lower body) \<longleftrightarrow> contains_ignoring_case body word"
proof
  assume "str_in (lower word) (lower body)"
  then obtain before after where e: "map lower_char body = before @ (lower word @ after)"
    unfolding str_in_iff lower_def by blast
  from map_eq_appendD [OF e] obtain b1 r1 where b1: "body = b1 @ r1"
      "map lower_char r1 = lower word @ after"
    by blast
  from map_eq_appendD [OF b1(2)] obtain b2 b3 where b2: "r1 = b2 @ b3"
      "map lower_char b2 = lower word"
    by blast
  from b1 b2 have "body = b1 @ b2 @ b3 \<and> lower b2 = lower word"
    by (simp add: lower_def)
  then show "contains_ignoring_case body word"
    unfolding contains_ignoring_case_def by blast
next
  assume "contains_ignoring_case body word"
  then obtain before occurrence after where
    "body = before @ occurrence @ after" "lower occurrence = lower word"
    unfolding contains_ignoring_case_def by blast
  then have "lower body = lower before @ lower word @ lower after"
    by (simp add: lower_def)
  then show "str_in (lower word) (lower body)"
    unfolding str_in_iff by blast
qed

lemma lower_captcha: "lower ''captcha'' = ''captcha''"
  by (simp add: lower_def lower_char_def)

text \<open>
  Claim C2. Whatever the counters and the delay of the scraper, \<^verbatim>\<open>detect_blocking\<close>
  answers true exactly when the status code is 403 or 429 or the body contains
  \<^verbatim>\<open>captcha\<close> in some mix of upper and lower case; the answer is a function of the
  status and the body alone.
\<close>

theorem C2_detect_blocking_iff:
  "fst (detect_blocking r s) = spec_classify (status_code r) (response_text r)"
proof -
  have "str_in ''captcha'' (lower (response_text r)) = contains_ignoring_case (response_text r) ''captcha''"
    using str_in_lower_iff [of "''captcha''" "response_text r"] by (simp only: lower_captcha)
  then show ?thesis
    by (simp add: detect_blocking_def spec_classify_def)
qed

section \<open>The retry executor\<close>

lemmas attempt_unfold = attempt_once_def try_block_def except_Timeout_def
  except_RequestException_def detect_blocking_def adaptive_delay_def sleep_def get_def
  raise_for_status_def Let_def

lemmas attempt_splits = sum.splits prod.splits get_result.splits control.splits if_splits
  option.splits

lemma attempt_once_Recurse:
  assumes "attempt_once e u attempt (s, w) = (Recurse, s1, w1)"
  shows "attempt < max_retries s \<and> max_retries s1 = max_retries s"
  using assms by (auto simp: attempt_unfold split: attempt_splits)

lemma attempt_once_counts:
  assumes "attempt_once e u attempt (s, w) = (c, s1, w1)"
  shows "gets w1 \<le> Suc (gets w)
    \<and> total_requests (stats s1) = total_requests (stats s) + 1
    \<and> max_retries s1 = max_retries s"
  using assms by (auto simp: attempt_unfold split: attempt_splits)

lemma make_request_bound:
  "make_request e u attempt sw = (r, s1, w1) \<Longrightarrow>
   gets w1 \<le> gets (snd sw) + nat (max_retries (fst sw) - attempt) + 1
   \<and> total_requests (stats s1)
      \<le> total_requests (stats (fst sw)) + max 0 (max_retries (fst sw) - attempt) + 1"
proof (induction e u attempt sw arbitrary: r s1 w1 rule: make_request.induct)
  case (1 e u attempt sw)
  obtain s w where sw: "sw = (s, w)" by (cases sw)
  obtain c s2 w2 where a: "attempt_once e u attempt (s, w) = (c, s2, w2)"
    by (cases "attempt_once e u attempt (s, w)")
  note cnt = attempt_once_counts [OF a]
  show ?case
  proof (cases c)
    case Recurse
    with a have rec: "attempt < max_retries s" "max_retries s2 = max_retries s"
      using attempt_once_Recurse by blast+
    from "1.prems" a Recurse have "make_request e u (attempt + 1) (s2, w2) = (r, s1, w1)"
      by (subst (asm) make_request.simps) (simp add: sw)
    from "1.IH" [OF _ _ this] a Recurse sw
    have "gets w1 \<le> gets w2 + nat (max_retries s2 - (attempt + 1)) + 1
      \<and> total_requests (stats s1)
        \<le> total_requests (stats s2) + max 0 (max_retries s2 - (attempt + 1)) + 1"
      by simp
    with cnt rec show ?thesis by (simp add: sw) linarith
  next
    case (Return x)
    with "1.prems" a have "s1 = s2 \<and> w1 = w2"
      by (subst (asm) make_request.simps) (simp add: sw)
    with cnt show ?thesis by (simp add: sw)
  next
    case (Raise x)
    with "1.prems" a have "s1 = s2 \<and> w1 = w2"
      by (subst (asm) make_request.simps) (simp add: sw)
    with cnt show ?thesis by (simp add: sw)
  qed
qed


lemma make_request_no_RequestException:
  "make_request e u attempt sw = (Inl x, sw1) \<Longrightarrow> \<not> is_RequestException x"
proof (induction e u attempt sw rule: make_request.induct)
  case (1 e u attempt sw)
  obtain s w where sw: "sw = (s, w)" by (cases sw)
  obtain c sw2 where a: "attempt_once e u attempt sw = (c, sw2)"
    by (cases "attempt_once e u attempt sw")
  show ?case
  proof (cases c)
    case Recurse
    from "1.prems" a Recurse have "make_request e u (attempt + 1) sw2 = (Inl x, sw1)"
      by (subst (asm) make_request.simps) simp
    from "1.IH" [OF _ _ this] a Recurse show ?thesis by simp
  next
    case (Return y)
    with "1.prems" a show ?thesis
      by (subst (asm) make_request.simps) simp
  next
    case (Raise y)
    with "1.prems" a have xy: "y = x"
      by (subst (asm) make_request.simps) simp
    from a Raise have "\<not> is_RequestException y"
      by (auto simp: sw attempt_unfold split: attempt_splits)
    with xy show ?thesis by simp
  qed
qed

text \<open>
  Claim C1. Called with the attempt counter at 0, \<^verbatim>\<open>make_request\<close> returns or raises
  (the function is total: its recursion decreases \<open>max_retries - attempt\<close>) after at most
  \<open>max_retries + 1\<close> calls of \<^verbatim>\<open>session.get\<close>, whatever the server answers, and the
  counter \<^verbatim>\<open>total_requests\<close> grows by at most as much.
\<close>

theorem C1_retry_bound:
  "gets (snd (snd (make_request e u 0 (s, w)))) \<le> gets w + nat (max_retries s) + 1
   \<and> total_requests (stats (fst (snd (make_request e u 0 (s, w)))))
      \<le> total_requests (stats s) + max 0 (max_retries s) + 1"
proof -
  obtain r s1 w1 where m: "make_request e u 0 (s, w) = (r, s1, w1)"
    by (cases "make_request e u 0 (s, w)")
  from make_request_bound [OF m] show ?thesis
    by (simp add: m)
qed

lemmas example_defs = init_def init_stats_def world0_def reply_def env_of_def lower_def
  lower_char_def always_blocked_def blocked_then_ok_def always_500_def timeout_then_ok_def
  refused_then_ok_def always_304_def

lemma make_request_Recurse:
  "attempt_once e u attempt sw = (Recurse, sw1) \<Longrightarrow>
   make_request e u attempt sw = make_request e u (attempt + 1) sw1"
  by (subst make_request.simps) simp

lemma make_request_Return:
  "attempt_once e u attempt sw = (Return r, sw1) \<Longrightarrow>
   make_request e u attempt sw = (Inr r, sw1)"
  by (subst make_request.simps) simp

lemma make_request_Raise:
  "attempt_once e u attempt sw = (Raise x, sw1) \<Longrightarrow>
   make_request e u attempt sw = (Inl x, sw1)"
  by (subst make_request.simps) simp

text \<open>
  Claim C4, on the code. A fresh scraper (delay 1.0, five retries) asks a server that
  answers 429 to each of the six attempts. The call returns \<^verbatim>\<open>None\<close> and counts one failed
  request, but the delay is still 1.0: the branch of the exhausted blocked request does
  not call \<^verbatim>\<open>adaptive_delay(False)\<close>, which would have made it 1.5, as the two other
  exhausted branches do.
\<close>

theorem C4_blocked_exhausted_keeps_delay:
  "fst (make_request (env_of always_blocked) ''u'' 0 (init ''b'', world0)) = Inr None
   \<and> failed_requests (stats (fst (snd
        (make_request (env_of always_blocked) ''u'' 0 (init ''b'', world0))))) = 1
   \<and> gets (snd (snd (make_request (env_of always_blocked) ''u'' 0 (init ''b'', world0)))) = 6
   \<and> delay (fst (snd (make_request (env_of always_blocked) ''u'' 0 (init ''b'', world0)))) = 1
   \<and> delay (adaptive_delay False (init ''b'')) = 3 / 2"
  by (simp add: make_request.simps attempt_unfold example_defs)

text \<open>
  Claim C5, on the code. The first request of a fresh scraper times out and the second
  is answered. Between the two requests the scraper sleeps once, the delay of the
  second attempt: the handler of \<^verbatim>\<open>Timeout\<close> retries without the sleep of
  \<open>delay * (attempt + 1)\<close>. When the first request fails with another network error, the
  handler of \<^verbatim>\<open>RequestException\<close> does sleep it.
\<close>

theorem C5_timeout_retry_without_backoff:
  "trace (snd (snd (make_request (env_of timeout_then_ok) ''u'' 0 (init ''b'', world0))))
     = [Slept 1, Requested ''u'' 10, Slept 1, Requested ''u'' 15]
   \<and> retries (stats (fst (snd
        (make_request (env_of timeout_then_ok) ''u'' 0 (init ''b'', world0))))) = 1
   \<and> trace (snd (snd (make_request (env_of refused_then_ok) ''u'' 0 (init ''b'', world0))))
     = [Slept 1, Requested ''u'' 10, Slept 1, Slept 1, Requested ''u'' 15]"
  by (simp add: make_request.simps attempt_unfold example_defs)

text \<open>
  Claim C6 as stated fails: a server that answers 500 with an empty body to a fresh
  scraper is asked six times, and the call returns \<^verbatim>\<open>None\<close> with no successful request
  counted and the delay raised.
\<close>

theorem C6_counterexample:
  "fst (make_request (env_of always_500) ''u'' 0 (init ''b'', world0)) = Inr None
   \<and> fst (detect_blocking (reply 500 []) (init ''b'')) = False
   \<and> gets (snd (snd (make_request (env_of always_500) ''u'' 0 (init ''b'', world0)))) = 6
   \<and> successful_requests (stats (fst (snd
        (make_request (env_of always_500) ''u'' 0 (init ''b'', world0))))) = 0
   \<and> delay (fst (snd (make_request (env_of always_500) ''u'' 0 (init ''b'', world0)))) = 3 / 2"
  by (simp add: make_request.simps attempt_unfold example_defs)

text \<open>
  Claim C6, amended. Let the server answer \<open>r\<close>, not classified as blocked, to an
  attempt made with a delay that is not negative. When the status of \<open>r\<close> is outside
  400..599, the call counts a successful request, applies the success update of the
  delay and returns \<open>r\<close>. When it is inside, \<^verbatim>\<open>raise_for_status\<close> raises and the response is
  handled as a network error: with retries left, the call counts a retry, sleeps
  \<open>delay * (attempt + 1)\<close> and goes on with the next attempt.
\<close>

theorem C6_clean_response:
  assumes "session_get e (gets w) = Returns r"
    and "fst (detect_blocking r s) = False"
    and "0 \<le> delay s"
  shows "(\<not> (400 \<le> status_code r \<and> status_code r < 600) \<longrightarrow>
      make_request e u attempt (s, w) =
        (Inr (Some r),
         adaptive_delay True
           (stats_update (successful_requests_update (\<lambda>n. n + 1))
             (stats_update (total_requests_update (\<lambda>n. n + 1)) s)),
         w\<lparr>trace := trace w @
               [Slept (delay s), Requested u (timeout s * (1 + of_int attempt * (1 / 2)))],
            gets := Suc (gets w)\<rparr>))
    \<and> (400 \<le> status_code r \<and> status_code r < 600 \<and> 0 \<le> attempt
        \<and> attempt < max_retries s \<longrightarrow>
      make_request e u attempt (s, w) =
        make_request e u (attempt + 1)
          (stats_update (retries_update (\<lambda>n. n + 1))
             (stats_update (total_requests_update (\<lambda>n. n + 1)) s),
           w\<lparr>trace := trace w @
               [Slept (delay s), Requested u (timeout s * (1 + of_int attempt * (1 / 2))),
                Slept (delay s * (of_int attempt + 1))],
            gets := Suc (gets w)\<rparr>))"
proof (intro conjI impI)
  assume st: "\<not> (400 \<le> status_code r \<and> status_code r < 600)"
  have "attempt_once e u attempt (s, w) =
      (Return (Some r),
       adaptive_delay True
         (stats_update (successful_requests_update (\<lambda>n. n + 1))
           (stats_update (total_requests_update (\<lambda>n. n + 1)) s)),
       w\<lparr>trace := trace w @
             [Slept (delay s), Requested u (timeout s * (1 + of_int attempt * (1 / 2)))],
          gets := Suc (gets w)\<rparr>)"
    using assms st by (auto simp: attempt_unfold split: if_splits)
  then show "make_request e u attempt (s, w) =
      (Inr (Some r),
       adaptive_delay True
         (stats_update (successful_requests_update (\<lambda>n. n + 1))
           (stats_update (total_requests_update (\<lambda>n. n + 1)) s)),
       w\<lparr>trace := trace w @
             [Slept (delay s), Requested u (timeout s * (1 + of_int attempt * (1 / 2)))],
          gets := Suc (gets w)\<rparr>)"
    by (subst make_request.simps) simp
next
  assume st: "400 \<le> status_code r \<and> status_code r < 600 \<and> 0 \<le> attempt
    \<and> attempt < max_retries s"
  then have "0 \<le> delay s * (of_int attempt + 1)"
    using assms(3) by simp
  then have nn: "\<not> delay s * (real_of_int attempt + 1) < 0"
    by (simp add: not_less)
  have "attempt_once e u attempt (s, w) =
      (Recurse,
       stats_update (retries_update (\<lambda>n. n + 1))
         (stats_update (total_requests_update (\<lambda>n. n + 1)) s),
       w\<lparr>trace := trace w @
             [Slept (delay s), Requested u (timeout s * (1 + of_int attempt * (1 / 2))),
              Slept (delay s * (of_int attempt + 1))],
          gets := Suc (gets w)\<rparr>)"
    using assms st nn by (auto simp: attempt_unfold split: if_splits)
  then show "make_request e u attempt (s, w) =
      make_request e u (attempt + 1)
        (stats_update (retries_update (\<lambda>n. n + 1))
           (stats_update (total_requests_update (\<lambda>n. n + 1)) s),
         w\<lparr>trace := trace w @
             [Slept (delay s), Requested u (timeout s * (1 + of_int attempt * (1 / 2))),
              Slept (delay s * (of_int attempt + 1))],
          gets := Suc (gets w)\<rparr>)"
    by (subst make_request.simps) simp
qed

theorem C6_clean_response_witness:
  "session_get (env_of always_304) (gets world0) = Returns (reply 304 [])
   \<and> fst (detect_blocking (reply 304 []) (init ''b'')) = False
   \<and> 0 \<le> delay (init ''b'')
   \<and> \<not> (400 \<le> status_code (reply 304 []) \<and> status_code (reply 304 []) < 600)
   \<and> fst (make_request (env_of always_304) ''u'' 0 (init ''b'', world0))
       = Inr (Some (reply 304 []))
   \<and> session_get (env_of always_500) (gets world0) = Returns (reply 500 [])
   \<and> fst (detect_blocking (reply 500 []) (init ''b'')) = False
   \<and> 400 \<le> status_code (reply 500 []) \<and> status_code (reply 500 []) < 600
   \<and> (0::int) < max_retries (init ''b'')
   \<and> make_request (env_of always_500) ''u'' 0 (init ''b'', world0)
       = make_request (env_of always_500) ''u'' (0 + 1)
           (stats_update (retries_update (\<lambda>n. n + 1))
              (stats_update (total_requests_update (\<lambda>n. n + 1)) (init ''b'')),
            world0\<lparr>trace := trace world0 @
               [Slept (delay (init ''b'')),
                Requested ''u'' (timeout (init ''b'') * (1 + of_int 0 * (1 / 2))),
                Slept (delay (init ''b'') * (of_int 0 + 1))],
              gets := Suc (gets world0)\<rparr>)"
proof -
  have a: "session_get (env_of always_304) (gets world0) = Returns (reply 304 [])"
    by (simp add: example_defs)
  have b: "fst (detect_blocking (reply 304 []) (init ''b'')) = False"
    by (simp add: detect_blocking_def example_defs)
  have c: "0 \<le> delay (init ''b'')"
    by (simp add: example_defs)
  have d: "\<not> (400 \<le> status_code (reply 304 []) \<and> status_code (reply 304 []) < 600)"
    by (simp add: example_defs)
  have a': "session_get (env_of always_500) (gets world0) = Returns (reply 500 [])"
    by (simp add: example_defs)
  have b': "fst (detect_blocking (reply 500 []) (init ''b'')) = False"
    by (simp add: detect_blocking_def example_defs)
  have d': "400 \<le> status_code (reply 500 []) \<and> status_code (reply 500 []) < 600
      \<and> (0::int) \<le> 0 \<and> 0 < max_retries (init ''b'')"
    by (simp add: example_defs)
  from C6_clean_response [OF a b c, where u = "''u''" and attempt = 0] d
  have one: "fst (make_request (env_of always_304) ''u'' 0 (init ''b'', world0))
      = Inr (Some (reply 304 []))"
    by simp
  from C6_clean_response [OF a' b' c, where u = "''u''" and attempt = 0] d'
  have two: "make_request (env_of always_500) ''u'' 0 (init ''b'', world0)
       = make_request (env_of always_500) ''u'' (0 + 1)
           (stats_update (retries_update (\<lambda>n. n + 1))
              (stats_update (total_requests_update (\<lambda>n. n + 1)) (init ''b'')),
            world0\<lparr>trace := trace world0 @
               [Slept (delay (init ''b'')),
                Requested ''u'' (timeout (init ''b'') * (1 + of_int 0 * (1 / 2))),
                Slept (delay (init ''b'') * (of_int 0 + 1))],
              gets := Suc (gets world0)\<rparr>)"
    by blast
  from a b c d a' b' d' one two show ?thesis by blast
qed

text \<open>
  Claim C9 as stated fails: a fresh scraper whose first request is answered 429 goes to
  its second attempt with the delay it began with, 1.0, not with a higher one.
\<close>

theorem C9_counterexample:
  "fst (attempt_once (env_of blocked_then_ok) ''u'' 0 (init ''b'', world0)) = Recurse
   \<and> delay (fst (snd (attempt_once (env_of blocked_then_ok) ''u'' 0 (init ''b'', world0))))
       = delay (init ''b'')
   \<and> trace (snd (snd (make_request (env_of blocked_then_ok) ''u'' 0 (init ''b'', world0))))
       = [Slept 1, Requested ''u'' 10, Slept 1, Slept 1, Requested ''u'' 15]"
  by (simp add: make_request.simps attempt_unfold example_defs)

text \<open>
  Claim C9, amended. With five retries allowed and a delay that is not negative, let the
  first answer be a 429 and the second a 200 without the captcha word. The first attempt
  ends in a retry and leaves the delay as it was; it sleeps the delay once more as its
  backoff (\<open>delay * 2 ^ 0\<close>). The call returns the second response, having counted one
  blocked detection, one retry and two requests, and the delay is then
  \<open>max min_delay (delay * 0.9)\<close>: not above the delay before when that was at least
  \<open>min_delay\<close>, and lower than it when it was positive and above \<open>min_delay\<close>.
\<close>

theorem C9_blocked_then_ok:
  assumes "session_get e (gets w) = Returns r1" and "status_code r1 = 429"
    and "session_get e (Suc (gets w)) = Returns r2" and "status_code r2 = 200"
    and "\<not> str_in ''captcha'' (lower (response_text r2))"
    and "max_retries s = 5" and "0 \<le> delay s"
  shows "fst (attempt_once e u 0 (s, w)) = Recurse
    \<and> delay (fst (snd (attempt_once e u 0 (s, w)))) = delay s
    \<and> fst (make_request e u 0 (s, w)) = Inr (Some r2)
    \<and> blocked_detections (stats (fst (snd (make_request e u 0 (s, w)))))
        = blocked_detections (stats s) + 1
    \<and> retries (stats (fst (snd (make_request e u 0 (s, w))))) = retries (stats s) + 1
    \<and> total_requests (stats (fst (snd (make_request e u 0 (s, w)))))
        = total_requests (stats s) + 2
    \<and> delay (fst (snd (make_request e u 0 (s, w)))) = max (min_delay s) (delay s * (9 / 10))
    \<and> (min_delay s \<le> delay s \<longrightarrow>
          delay (fst (snd (make_request e u 0 (s, w)))) \<le> delay s)
    \<and> (0 < delay s \<and> min_delay s < delay s \<longrightarrow>
          delay (fst (snd (make_request e u 0 (s, w)))) < delay s)
    \<and> trace (snd (snd (make_request e u 0 (s, w))))
        = trace w @ [Slept (delay s), Requested u (timeout s), Slept (delay s),
            Slept (delay s), Requested u (timeout s * (3 / 2))]"
proof -
  let ?s1 = "stats_update (retries_update (\<lambda>n. n + 1))
      (stats_update (blocked_detections_update (\<lambda>n. n + 1))
        (stats_update (total_requests_update (\<lambda>n. n + 1)) s))"
  let ?w1 = "w\<lparr>trace := trace w @ [Slept (delay s), Requested u (timeout s), Slept (delay s)],
      gets := Suc (gets w)\<rparr>"
  let ?s2 = "adaptive_delay True
      (stats_update (successful_requests_update (\<lambda>n. n + 1))
        (stats_update (total_requests_update (\<lambda>n. n + 1)) ?s1))"
  let ?w2 = "?w1\<lparr>trace := trace ?w1 @ [Slept (delay s), Requested u (timeout s * (3 / 2))],
      gets := Suc (Suc (gets w))\<rparr>"
  have first: "attempt_once e u 0 (s, w) = (Recurse, ?s1, ?w1)"
    using assms by (simp add: attempt_unfold)
  have second: "attempt_once e u (0 + 1) (?s1, ?w1) = (Return (Some r2), ?s2, ?w2)"
    using assms by (simp add: attempt_unfold)
  have run: "make_request e u 0 (s, w) = (Inr (Some r2), ?s2, ?w2)"
    using make_request_Recurse [OF first] make_request_Return [OF second] by simp
  have final: "delay ?s2 = max (min_delay s) (delay s * (9 / 10))"
    by (simp add: adaptive_delay_def)
  have not_above: "min_delay s \<le> delay s \<longrightarrow> max (min_delay s) (delay s * (9 / 10)) \<le> delay s"
    using assms(7) by simp
  have lower: "0 < delay s \<and> min_delay s < delay s \<longrightarrow>
      max (min_delay s) (delay s * (9 / 10)) < delay s"
    by simp
  show ?thesis
    using not_above lower by (simp add: first run adaptive_delay_def)
qed

theorem C9_blocked_then_ok_witness:
  "session_get (env_of blocked_then_ok) (gets world0) = Returns (reply 429 [])
   \<and> status_code (reply 429 []) = 429
   \<and> session_get (env_of blocked_then_ok) (Suc (gets world0)) = Returns (reply 200 [])
   \<and> status_code (reply 200 []) = 200
   \<and> \<not> str_in ''captcha'' (lower (response_text (reply 200 [])))
   \<and> max_retries (init ''b'') = 5 \<and> 0 \<le> delay (init ''b'')
   \<and> min_delay (init ''b'') \<le> delay (init ''b'')
   \<and> 0 < delay (init ''b'') \<and> min_delay (init ''b'') < delay (init ''b'')
   \<and> fst (make_request (env_of blocked_then_ok) ''u'' 0 (init ''b'', world0))
       = Inr (Some (reply 200 []))
   \<and> delay (fst (snd (attempt_once (env_of blocked_then_ok) ''u'' 0 (init ''b'', world0)))) = 1
   \<and> delay (fst (snd (make_request (env_of blocked_then_ok) ''u'' 0 (init ''b'', world0))))
       = 9 / 10
   \<and> delay (fst (snd (make_request (env_of blocked_then_ok) ''u'' 0 (init ''b'', world0))))
       < delay (init ''b'')"
proof -
  have h1: "session_get (env_of blocked_then_ok) (gets world0) = Returns (reply 429 [])"
    and h2: "status_code (reply 429 []) = 429"
    and h3: "session_get (env_of blocked_then_ok) (Suc (gets world0)) = Returns (reply 200 [])"
    and h4: "status_code (reply 200 []) = 200"
    and h5: "\<not> str_in ''captcha'' (lower (response_text (reply 200 [])))"
    and h6: "max_retries (init ''b'') = 5"
    and h7: "0 \<le> delay (init ''b'')"
    and h8: "min_delay (init ''b'') \<le> delay (init ''b'')"
    and h9: "0 < delay (init ''b'') \<and> min_delay (init ''b'') < delay (init ''b'')"
    by (simp_all add: example_defs)
  note run = C9_blocked_then_ok [OF h1 h2 h3 h4 h5 h6 h7, where u = "''u''"]
  from run have c1: "fst (make_request (env_of blocked_then_ok) ''u'' 0 (init ''b'', world0))
       = Inr (Some (reply 200 []))"
    by blast
  from run
  have c2: "delay (fst (snd (attempt_once (env_of blocked_then_ok) ''u'' 0 (init ''b'', world0))))
      = 1"
    by (simp add: init_def)
  from run
  have c3: "delay (fst (snd (make_request (env_of blocked_then_ok) ''u'' 0 (init ''b'', world0))))
      = 9 / 10"
    by (simp add: init_def)
  from run h9
  have c4: "delay (fst (snd (make_request (env_of blocked_then_ok) ''u'' 0 (init ''b'', world0))))
      < delay (init ''b'')"
    by blast
  from h1 h2 h3 h4 h5 h6 h7 h8 h9 c1 c2 c3 c4 show ?thesis by blast
qed

section \<open>The checkpoint store\<close>

lemma save_checkpoint_state: "fst (snd (save_checkpoint e (s, w))) = s"
  by (simp add: save_checkpoint_def split: option.splits)

text \<open>
  Claim C10. Whatever the write does, \<^verbatim>\<open>save_checkpoint\<close> leaves the books, the
  statistics, the delay and every other field of the scraper as they were. When the
  write raises an \<^verbatim>\<open>Exception\<close>, such as the \<^verbatim>\<open>OSError\<close> of a failed input or output, the
  method returns normally, having only recorded the failed save.
\<close>

theorem C10_save_checkpoint_returns:
  assumes "file_write e (writes w) = Some x" and "is_Exception x"
  shows "save_checkpoint e (s, w)
      = (Inr (), s, w\<lparr>trace := trace w @ [Saved False], writes := Suc (writes w)\<rparr>)
    \<and> fst (snd (save_checkpoint e2 (s, w))) = s"
  using assms by (simp add: save_checkpoint_def split: option.splits)

theorem C10_save_checkpoint_returns_witness:
  "file_write disk_full (writes world0) = Some OSError \<and> is_Exception OSError
   \<and> save_checkpoint disk_full (init ''b'', world0)
       = (Inr (), init ''b'', world0\<lparr>trace := [Saved False], writes := 1\<rparr>)"
proof -
  have h1: "file_write disk_full (writes world0) = Some OSError"
    by (simp add: disk_full_def)
  have h2: "is_Exception OSError"
    by simp
  from C10_save_checkpoint_returns [OF h1 h2, where s = "init ''b''"]
  have "save_checkpoint disk_full (init ''b'', world0)
       = (Inr (), init ''b'', world0\<lparr>trace := [Saved False], writes := 1\<rparr>)"
    by (simp add: world0_def)
  with h1 h2 show ?thesis by blast
qed

section \<open>Books are scraped once\<close>

lemma attempt_once_books:
  assumes "attempt_once e u attempt (s, w) = (c, s1, w1)"
  shows "scraped_books s1 = scraped_books s
    \<and> books_scraped (stats s1) = books_scraped (stats s)
    \<and> base_url s1 = base_url s"
  using assms by (auto simp: attempt_unfold split: attempt_splits)

lemma make_request_books:
  "make_request e u attempt sw = (r, s1, w1) \<Longrightarrow>
   scraped_books s1 = scraped_books (fst sw)
   \<and> books_scraped (stats s1) = books_scraped (stats (fst sw))
   \<and> base_url s1 = base_url (fst sw)"
proof (induction e u attempt sw rule: make_request.induct)
  case (1 e u attempt sw)
  obtain s w where sw: "sw = (s, w)" by (cases sw)
  obtain c s2 w2 where a: "attempt_once e u attempt sw = (c, s2, w2)"
    by (cases "attempt_once e u attempt sw")
  note keep = attempt_once_books [OF a [unfolded sw]]
  show ?case
  proof (cases c)
    case Recurse
    with a "1.prems" have "make_request e u (attempt + 1) (s2, w2) = (r, s1, w1)"
      using make_request_Recurse by simp
    from "1.IH" [OF _ _ this] a Recurse keep show ?thesis
      by (simp add: sw)
  next
    case (Return y)
    with a "1.prems" keep show ?thesis
      using make_request_Return [of e u attempt sw y "(s2, w2)"] by (simp add: sw)
  next
    case (Raise y)
    with a "1.prems" keep show ?thesis
      using make_request_Raise [of e u attempt sw y "(s2, w2)"] by (simp add: sw)
  qed
qed

lemma list_ex_url: "list_ex (\<lambda>b. url b = u) bs \<longleftrightarrow> u \<in> url ` set bs"
  by (auto simp: list_ex_iff)

lemma scrape_book_present:
  "u \<in> url ` set (scraped_books s) \<Longrightarrow> scrape_book e u (s, w) = (Inr None, s, w)"
  by (simp add: scrape_book_def list_ex_url)

lemma scrape_book_books:
  assumes "scrape_book e u (s, w) = (r, s1, w1)"
  shows "base_url s1 = base_url s
    \<and> (case r of
          Inr (Some b) \<Rightarrow> u \<notin> url ` set (scraped_books s) \<and> url b = u
            \<and> scraped_books s1 = scraped_books s @ [b]
            \<and> books_scraped (stats s1) = books_scraped (stats s) + 1
        | _ \<Rightarrow> scraped_books s1 = scraped_books s
            \<and> books_scraped (stats s1) = books_scraped (stats s))"
proof (cases "list_ex (\<lambda>b. url b = u) (scraped_books s)")
  case True
  with assms show ?thesis by (auto simp: scrape_book_def)
next
  case False
  obtain q s2 w2 where m: "make_request e u 0 (s, w) = (q, s2, w2)"
    by (cases "make_request e u 0 (s, w)")
  from make_request_books [OF m] have keep: "scraped_books s2 = scraped_books s"
    "books_scraped (stats s2) = books_scraped (stats s)" "base_url s2 = base_url s"
    by simp_all
  from assms False m keep show ?thesis
    by (auto simp: scrape_book_def list_ex_url Let_def
        split: sum.splits option.splits if_splits)
qed

lemma scrape_book_distinct:
  assumes "distinct (map url (scraped_books s))"
  shows "distinct (map url (scraped_books (fst (snd (scrape_book e u (s, w))))))"
proof -
  obtain r s1 w1 where sb: "scrape_book e u (s, w) = (r, s1, w1)"
    by (cases "scrape_book e u (s, w)")
  from scrape_book_books [OF sb] assms show ?thesis
    by (auto simp: sb split: sum.splits option.splits)
qed

lemma for_books_distinct:
  "distinct (map url (scraped_books (fst sw))) \<Longrightarrow>
   distinct (map url (scraped_books (fst (snd (for_books e articles sw)))))"
proof (induction articles arbitrary: sw)
  case Nil
  then show ?case by simp
next
  case (Cons article articles)
  obtain s w where sw: "sw = (s, w)" by (cases sw)
  show ?case
  proof (cases article)
    case (Inl x)
    with Cons.prems show ?thesis by simp
  next
    case (Inr link)
    obtain r s1 w1 where sb: "scrape_book e (book_url_of s link) (s, w) = (r, s1, w1)"
      by (cases "scrape_book e (book_url_of s link) (s, w)")
    from scrape_book_distinct [of s e "book_url_of s link" w] Cons.prems
    have d1: "distinct (map url (scraped_books s1))"
      by (simp add: sw sb)
    have d2: "distinct (map url (scraped_books (fst (snd (save_checkpoint e (s1, w1))))))"
      using d1 by (simp add: save_checkpoint_state)
    show ?thesis
    proof (cases r)
      case (Inl x)
      with Inr sb d1 show ?thesis by (simp add: sw)
    next
      case r: (Inr b)
      show ?thesis
      proof (cases "books_scraped (stats s1) mod 10 = 0")
        case False
        with Inr sb r Cons.IH [of "(s1, w1)"] d1 show ?thesis by (simp add: sw)
      next
        case True
        obtain q sw2 where sc: "save_checkpoint e (s1, w1) = (q, sw2)"
          by (cases "save_checkpoint e (s1, w1)")
        with d2 have d3: "distinct (map url (scraped_books (fst sw2)))" by simp
        show ?thesis
        proof (cases q)
          case (Inl x)
          with Inr sb r True sc d3 show ?thesis by (simp add: sw)
        next
          case q: (Inr v)
          with Inr sb r True sc Cons.IH [OF d3] show ?thesis by (simp add: sw)
        qed
      qed
    qed
  qed
qed

lemma while_pages_distinct:
  "distinct (map url (scraped_books (fst sw))) \<Longrightarrow>
   distinct (map url (scraped_books (fst (snd (while_pages fuel e page sw)))))"
proof (induction fuel arbitrary: page sw)
  case 0
  then show ?case by simp
next
  case (Suc fuel)
  obtain q s1 w1 where m: "make_request e (page_url (fst sw) page) 0 sw = (q, s1, w1)"
    by (cases "make_request e (page_url (fst sw) page) 0 sw")
  from make_request_books [OF m] Suc.prems
  have d1: "distinct (map url (scraped_books s1))" by simp
  show ?case
  proof (cases q)
    case (Inl x)
    with m d1 show ?thesis by simp
  next
    case q: (Inr ro)
    show ?thesis
    proof (cases ro)
      case None
      with m q d1 show ?thesis by simp
    next
      case (Some r)
      show ?thesis
      proof (cases "soup_catalogue e (content r)")
        case (Inl x)
        with m q Some d1 show ?thesis by simp
      next
        case (Inr books)
        obtain x sw2 where fb: "for_books e books (s1, w1) = (x, sw2)"
          by (cases "for_books e books (s1, w1)")
        from for_books_distinct [of "(s1, w1)" e books] d1 fb
        have d2: "distinct (map url (scraped_books (fst sw2)))" by simp
        from Suc.IH [OF d2] m q Some Inr fb d1 d2 show ?thesis
          by (cases x) simp_all
      qed
    qed
  qed
qed

lemma finally_clause_state: "fst (snd (finally_clause e p (s, w))) = s"
proof -
  obtain q s1 w1 where sc: "save_checkpoint e (s, w) = (q, s1, w1)"
    by (cases "save_checkpoint e (s, w)")
  with save_checkpoint_state [of e s w] have "s1 = s" by simp
  with sc show ?thesis
    by (simp add: finally_clause_def split: sum.splits option.splits)
qed

lemma scrape_catalogue_distinct:
  assumes "distinct (map url (scraped_books s))"
  shows "distinct (map url (scraped_books (fst (snd (scrape_catalogue fuel e (s, w))))))"
proof -
  obtain r s1 w1 where wp: "while_pages fuel e 1 (s, w) = (r, s1, w1)"
    by (cases "while_pages fuel e 1 (s, w)")
  from while_pages_distinct [of "(s, w)" fuel e 1] assms wp
  have d1: "distinct (map url (scraped_books s1))" by simp
  obtain q s2 w2 where sc: "save_checkpoint e (s1, w1) = (q, s2, w2)"
    by (cases "save_checkpoint e (s1, w1)")
  with save_checkpoint_state [of e s1 w1] have s2: "s2 = s1" by simp
  have unfolded: "scrape_catalogue fuel e (s, w) =
      (case r of
         Running \<Rightarrow> (Running, s1, w1)
       | Break \<Rightarrow> finally_clause e None (s1, w1)
       | Raised x \<Rightarrow>
          if x = KeyboardInterrupt \<or> is_Exception x then
            (case q of
               Inl y \<Rightarrow> finally_clause e (Some y) (s1, w2)
             | Inr v \<Rightarrow> finally_clause e (Some x) (s1, w2))
          else finally_clause e (Some x) (s1, w1))"
    by (simp only: scrape_catalogue_def wp sc s2 prod.case split: loop_end.splits sum.splits)
  show ?thesis
    using d1 by (simp add: unfolded finally_clause_state split: loop_end.splits sum.splits)
qed

text \<open>
  Claim C7. Asking for a book whose URL is already among the scraped books changes
  nothing: neither the list, nor the counters, nor the world, and the call returns
  \<^verbatim>\<open>None\<close> without a request. Right after a call that has scraped a book, a second call
  for the same URL, whatever the server would answer, is such a call, and the list
  holds exactly one book of that URL. A list without two books of the same URL stays
  so through \<^verbatim>\<open>scrape_book\<close> and through the whole of \<^verbatim>\<open>scrape_catalogue\<close>, stopped
  anywhere; this holds from an empty list and from a list loaded from a checkpoint.
\<close>

theorem C7_dedup:
  "(u \<in> url ` set (scraped_books s) \<longrightarrow> scrape_book e u (s, w) = (Inr None, s, w))
   \<and> (fst (scrape_book e u (s, w)) = Inr (Some b) \<longrightarrow>
        scrape_book e2 u (snd (scrape_book e u (s, w)))
          = (Inr None, snd (scrape_book e u (s, w)))
        \<and> length (filter (\<lambda>b. url b = u)
            (scraped_books (fst (snd (scrape_book e u (s, w)))))) = 1)
   \<and> (distinct (map url (scraped_books s)) \<longrightarrow>
        distinct (map url (scraped_books (fst (snd (scrape_book e u (s, w))))))
        \<and> distinct (map url (scraped_books (fst (snd (scrape_catalogue fuel e (s, w)))))))"
proof (intro conjI impI)
  assume "u \<in> url ` set (scraped_books s)"
  then show "scrape_book e u (s, w) = (Inr None, s, w)"
    by (rule scrape_book_present)
next
  assume some: "fst (scrape_book e u (s, w)) = Inr (Some b)"
  obtain s1 w1 where sb: "scrape_book e u (s, w) = (Inr (Some b), s1, w1)"
    using some by (cases "scrape_book e u (s, w)") auto
  from scrape_book_books [OF sb]
  have new: "u \<notin> url ` set (scraped_books s)" "url b = u"
    "scraped_books s1 = scraped_books s @ [b]"
    by simp_all
  then have "u \<in> url ` set (scraped_books s1)" by simp
  then show "scrape_book e2 u (snd (scrape_book e u (s, w)))
      = (Inr None, snd (scrape_book e u (s, w)))"
    by (simp add: sb scrape_book_present)
  from new(1) have "filter (\<lambda>b. url b = u) (scraped_books s) = []"
    by (auto simp: filter_empty_conv)
  with new show "length (filter (\<lambda>b. url b = u)
      (scraped_books (fst (snd (scrape_book e u (s, w)))))) = 1"
    by (simp add: sb)
next
  assume "distinct (map url (scraped_books s))"
  then show "distinct (map url (scraped_books (fst (snd (scrape_book e u (s, w))))))"
    by (rule scrape_book_distinct)
next
  assume "distinct (map url (scraped_books s))"
  then show "distinct (map url (scraped_books (fst (snd (scrape_catalogue fuel e (s, w))))))"
    by (rule scrape_catalogue_distinct)
qed

theorem C7_dedup_witness:
  "''u'' \<in> url ` set (scraped_books one_book)
   \<and> scrape_book (env_of book_server) ''u'' (one_book, world0) = (Inr None, one_book, world0)
   \<and> fst (scrape_book (env_of book_server) ''u'' (init ''b'', world0)) = Inr (Some attic)
   \<and> scrape_book (env_of always_blocked) ''u''
        (snd (scrape_book (env_of book_server) ''u'' (init ''b'', world0)))
      = (Inr None, snd (scrape_book (env_of book_server) ''u'' (init ''b'', world0)))
   \<and> length (filter (\<lambda>b. url b = ''u'')
        (scraped_books (fst (snd (scrape_book (env_of book_server) ''u'' (init ''b'', world0))))))
      = 1
   \<and> distinct (map url (scraped_books one_book))
   \<and> distinct (map url (scraped_books
        (fst (snd (scrape_book (env_of book_server) ''v'' (one_book, world0))))))
   \<and> distinct (map url (scraped_books
        (fst (snd (scrape_catalogue 5 (env_of small_site) (one_book, world0))))))"
proof -
  have h1: "''u'' \<in> url ` set (scraped_books one_book)"
    by (simp add: one_book_def attic_def)
  have h2: "fst (scrape_book (env_of book_server) ''u'' (init ''b'', world0)) = Inr (Some attic)"
    by (simp add: scrape_book_def make_request.simps attempt_unfold example_defs
        book_server_def attic_def ok_def)
  have h3: "distinct (map url (scraped_books one_book))"
    by (simp add: one_book_def)
  note a = C7_dedup [where u = "''u''" and s = one_book and e = "env_of book_server"
      and w = world0]
  note b = C7_dedup [where u = "''u''" and s = "init ''b''" and e = "env_of book_server"
      and w = world0 and b = attic and ?e2.0 = "env_of always_blocked"]
  note c = C7_dedup [where u = "''v''" and s = one_book and e = "env_of book_server"
      and w = world0]
  note d = C7_dedup [where s = one_book and e = "env_of small_site" and w = world0
      and fuel = 5]
  from a h1 have c1: "scrape_book (env_of book_server) ''u'' (one_book, world0)
      = (Inr None, one_book, world0)"
    by blast
  from b h2 have c2: "scrape_book (env_of always_blocked) ''u''
        (snd (scrape_book (env_of book_server) ''u'' (init ''b'', world0)))
      = (Inr None, snd (scrape_book (env_of book_server) ''u'' (init ''b'', world0)))
    \<and> length (filter (\<lambda>b. url b = ''u'')
        (scraped_books (fst (snd (scrape_book (env_of book_server) ''u'' (init ''b'', world0))))))
      = 1"
    by blast
  from c h3 have c3: "distinct (map url (scraped_books
        (fst (snd (scrape_book (env_of book_server) ''v'' (one_book, world0))))))"
    by blast
  from d h3 have c4: "distinct (map url (scraped_books
        (fst (snd (scrape_catalogue 5 (env_of small_site) (one_book, world0))))))"
    by blast
  from h1 h2 h3 c1 c2 c3 c4 show ?thesis by blast
qed

section \<open>The checkpoint policy\<close>

lemma observe_all_append:
  "observe_all (xs @ ys) m =
     (case observe_all xs m of None \<Rightarrow> None | Some m1 \<Rightarrow> observe_all ys m1)"
  by (induction xs arbitrary: m) (auto split: option.splits)





















subsection \<open>Saves that write\<close>








subsection \<open>What the monitor accepts\<close>

text \<open>
  In an accepted trace the appending that makes the counter a multiple of 10 is followed
  at once by a save, if by anything; and at every point of it where no save is owed, at
  most 9 books have been appended since the last save, provided this held at the start.
\<close>

lemma accepted_due_then_saved:
  assumes "observe_all (before @ Scraped u # ev # rest) m0 = Some m"
    and "observe_all before m0 = Some m1" and "(counted m1 + 1) mod 10 = 0"
  shows "is_Saved ev"
proof -
  from assms(1,2) have run: "observe_all (Scraped u # ev # rest) m1 = Some m"
    by (simp add: observe_all_append)
  then obtain m2 where m2: "observe (Scraped u) m1 = Some m2"
    "observe_all (ev # rest) m2 = Some m"
    by (auto split: option.splits)
  from m2(1) assms(3) have "due m2"
    by (auto split: if_splits)
  moreover from m2(2) obtain m3 where "observe ev m2 = Some m3"
    by (auto split: option.splits)
  ultimately show ?thesis
    by (cases ev) auto
qed

lemma observe_bound:
  assumes "observe ev m = Some m1" and "\<not> due m \<longrightarrow> unsaved m \<le> 9"
  shows "\<not> due m1 \<longrightarrow> unsaved m1 \<le> 9"
  using assms by (cases ev) (auto split: if_splits)

lemma accepted_bound:
  "observe_all (before @ rest) m0 = Some m \<Longrightarrow> \<not> due m0 \<longrightarrow> unsaved m0 \<le> 9 \<Longrightarrow>
   \<exists>m1. observe_all before m0 = Some m1 \<and> (\<not> due m1 \<longrightarrow> unsaved m1 \<le> 9)"
proof (induction before arbitrary: m0)
  case Nil
  then show ?case by simp
next
  case (Cons ev before)
  from Cons.prems(1) obtain m2 where m2: "observe ev m0 = Some m2"
    "observe_all (before @ rest) m2 = Some m"
    by (auto split: option.splits)
  from observe_bound [OF m2(1) Cons.prems(2)] have "\<not> due m2 \<longrightarrow> unsaved m2 \<le> 9" .
  from Cons.IH [OF m2(2) this] m2(1) show ?case
    by simp
qed





end
